theory Spec2Isabelle
  imports Main "HOL-Library.Log_Nat"
begin

section \<open>Python values used by \<open>main.py\<close>\<close>

text \<open>
  The program handles two kinds of numbers: Python's unbounded \<open>int\<close> and Python's
  \<open>float\<close>, an IEEE 754 binary64 value. A finite float \<open>Finite neg m e\<close> stands for
  \<open>(-1)^neg * m * 2^e\<close>; the two zeros are \<open>Finite False 0 (-1074)\<close> and
  \<open>Finite True 0 (-1074)\<close>. There is one NaN: Python cannot tell NaN payloads apart
  with \<open>+\<close>, \<open>==\<close> or \<open>repr\<close>.
\<close>

datatype pyfloat = Finite bool int int | Infinity bool | NaN

datatype pynum = PInt int | PFloat pyfloat

text \<open>
  The exceptions that can occur in \<open>main.py\<close>, each with the message that \<open>str(e)\<close>
  gives.
\<close>

datatype exn = ValueError string | OverflowError string | EOFError string

text \<open>
  The binary64 values among the terms of type \<open>pyfloat\<close>: a 53-bit significand, an
  exponent between \<open>-1074\<close> and \<open>971\<close>, and a significand below \<open>2^52\<close> only at the
  lowest exponent (the subnormal numbers and zero).
\<close>

fun is_double :: "pyfloat \<Rightarrow> bool" where
  "is_double (Finite s m e) =
     (0 \<le> m \<and> m < 2 ^ 53 \<and> - 1074 \<le> e \<and> e \<le> 971 \<and> (2 ^ 52 \<le> m \<or> e = - 1074))"
| "is_double (Infinity s) = True"
| "is_double NaN = True"

fun is_nan :: "pyfloat \<Rightarrow> bool" where
  "is_nan NaN = True"
| "is_nan _ = False"

subsection \<open>Rounding to binary64\<close>

text \<open>
  \<open>floor_log2 n d\<close> is the integer \<open>k\<close> with \<open>2^k \<le> n / d < 2^(k+1)\<close>, for positive
  \<open>n\<close> and \<open>d\<close>.
\<close>

definition floor_log2 :: "int \<Rightarrow> int \<Rightarrow> int" where
  "floor_log2 n d =
     (let k = bitlen n - bitlen d
      in if (if 0 \<le> k then d * 2 ^ nat k \<le> n else d \<le> n * 2 ^ nat (- k)) then k else k - 1)"

text \<open>
  \<open>round_to_double neg n d\<close> is the binary64 value nearest to the rational \<open>n / d\<close>
  (\<open>0 \<le> n\<close>, \<open>0 < d\<close>) with the sign \<open>neg\<close>, ties going to the even significand: the
  rounding of the hardware addition, of \<open>float(str)\<close> and of the conversion of an
  \<open>int\<close>. A result of \<open>2^1024\<close> or more is an infinity.
\<close>

definition round_to_double :: "bool \<Rightarrow> int \<Rightarrow> int \<Rightarrow> pyfloat" where
  "round_to_double neg n d =
     (if n = 0 then Finite neg 0 (- 1074)
      else
        let e = max (floor_log2 n d - 52) (- 1074);
            num = (if 0 \<le> e then n else n * 2 ^ nat (- e));
            den = (if 0 \<le> e then d * 2 ^ nat e else d);
            q = num div den;
            r = num mod den;
            m = (if den < 2 * r \<or> (2 * r = den \<and> odd q) then q + 1 else q);
            m' = (if m = 2 ^ 53 then 2 ^ 52 else m);
            e' = (if m = 2 ^ 53 then e + 1 else e)
        in if 971 < e' then Infinity neg else Finite neg m' e')"

subsection \<open>Addition\<close>

text \<open>
  \<open>float + float\<close>: the IEEE 754 sum in the default rounding mode. The exact sum of two
  finite values is an integer multiple of \<open>2^(min ea eb)\<close>; an exact zero sum is \<open>-0.0\<close>
  only when both operands are negative (zeros).
\<close>

fun float_add :: "pyfloat \<Rightarrow> pyfloat \<Rightarrow> pyfloat" where
  "float_add NaN y = NaN"
| "float_add x NaN = NaN"
| "float_add (Infinity s) (Infinity t) = (if s = t then Infinity s else NaN)"
| "float_add (Infinity s) (Finite t m e) = Infinity s"
| "float_add (Finite s m e) (Infinity t) = Infinity t"
| "float_add (Finite sa ma ea) (Finite sb mb eb) =
     (let e0 = min ea eb;
          total = (if sa then - ma else ma) * 2 ^ nat (ea - e0)
                + (if sb then - mb else mb) * 2 ^ nat (eb - e0)
      in if total = 0 then Finite (sa \<and> sb) 0 (- 1074)
         else if 0 \<le> e0 then round_to_double (total < 0) (\<bar>total\<bar> * 2 ^ nat e0) 1
         else round_to_double (total < 0) \<bar>total\<bar> (2 ^ nat (- e0)))"

text \<open>
  The conversion of an \<open>int\<close> operand to \<open>float\<close> that \<open>int + float\<close> performs: correctly
  rounded, and an \<open>OverflowError\<close> when the rounded value does not fit.
\<close>

definition int_to_float :: "int \<Rightarrow> exn + pyfloat" where
  "int_to_float i =
     (case round_to_double (i < 0) \<bar>i\<bar> 1 of
        Infinity s \<Rightarrow> Inl (OverflowError ''int too large to convert to float'')
      | x \<Rightarrow> Inr x)"

text \<open>Python's \<open>a + b\<close> on numbers: exact on two ints, the float sum otherwise.\<close>

fun py_add :: "pynum \<Rightarrow> pynum \<Rightarrow> exn + pynum" where
  "py_add (PInt a) (PInt b) = Inr (PInt (a + b))"
| "py_add (PFloat x) (PFloat y) = Inr (PFloat (float_add x y))"
| "py_add (PInt a) (PFloat y) =
     (case int_to_float a of Inl err \<Rightarrow> Inl err | Inr x \<Rightarrow> Inr (PFloat (float_add x y)))"
| "py_add (PFloat x) (PInt b) =
     (case int_to_float b of Inl err \<Rightarrow> Inl err | Inr y \<Rightarrow> Inr (PFloat (float_add x y)))"

subsection \<open>Characters\<close>

text \<open>
  A \<open>string\<close> stands for a Python \<open>str\<close> whose code points are below 256, one \<open>char\<close>
  per code point.
\<close>

definition is_digit :: "char \<Rightarrow> bool" where
  "is_digit c = (48 \<le> (of_char c :: nat) \<and> (of_char c :: nat) \<le> 57)"

definition digit_val :: "char \<Rightarrow> int" where
  "digit_val c = int (of_char c) - 48"

text \<open>The ASCII white space that \<open>float\<close> strips: tab, LF, VT, FF, CR and the space.\<close>

definition is_space :: "char \<Rightarrow> bool" where
  "is_space c = (c \<in> set [CHR 0x09, CHR 0x0A, CHR 0x0B, CHR 0x0C, CHR 0x0D, CHR '' ''])"

definition to_lower :: "char \<Rightarrow> char" where
  "to_lower c =
     (if 65 \<le> (of_char c :: nat) \<and> (of_char c :: nat) \<le> 90 then char_of (of_char c + (32::nat))
      else c)"

definition digits_value :: "string \<Rightarrow> int" where
  "digits_value ds = foldl (\<lambda>a c. 10 * a + digit_val c) 0 ds"

subsection \<open>\<open>str(int)\<close>\<close>

text \<open>The decimal digits of a non-negative integer, and their number.\<close>

function digits_str :: "int \<Rightarrow> string" where
  "digits_str n =
     (if n < 10 then [char_of (48 + n)] else digits_str (n div 10) @ [char_of (48 + n mod 10)])"
  by pat_completeness auto
termination
  by (relation "measure nat") auto

function digits_len :: "int \<Rightarrow> int" where
  "digits_len n = (if n < 10 then 1 else digits_len (n div 10) + 1)"
  by pat_completeness auto
termination
  by (relation "measure nat") auto

declare digits_str.simps [simp del] digits_len.simps [simp del]

definition int_str :: "int \<Rightarrow> string" where
  "int_str i = (if i < 0 then CHR ''-'' # digits_str (- i) else digits_str i)"

subsection \<open>\<open>repr(str)\<close>, as it appears in the message of the \<open>ValueError\<close>\<close>

definition hex_digit :: "nat \<Rightarrow> char" where
  "hex_digit n = (if n < 10 then char_of (48 + n) else char_of (87 + n))"

definition is_printable :: "char \<Rightarrow> bool" where
  "is_printable c =
     (let n = (of_char c :: nat)
      in (32 \<le> n \<and> n < 127) \<or> (161 \<le> n \<and> n \<noteq> 173))"

definition repr_char :: "char \<Rightarrow> char \<Rightarrow> string" where
  "repr_char quote c =
     (if c = quote \<or> c = CHR 0x5C then [CHR 0x5C, c]
      else if c = CHR 0x09 then [CHR 0x5C, CHR ''t'']
      else if c = CHR 0x0A then [CHR 0x5C, CHR ''n'']
      else if c = CHR 0x0D then [CHR 0x5C, CHR ''r'']
      else if is_printable c then [c]
      else [CHR 0x5C, CHR ''x'', hex_digit (of_char c div 16), hex_digit (of_char c mod 16)])"

definition str_repr :: "string \<Rightarrow> string" where
  "str_repr s =
     (let quote = (if CHR 0x27 \<in> set s \<and> CHR 0x22 \<notin> set s then CHR 0x22 else CHR 0x27)
      in [quote] @ concat (map (repr_char quote) s) @ [quote])"

subsection \<open>\<open>float(str)\<close>\<close>

text \<open>
  A string with a code point above 126 is first rewritten: the white space \<open>0x85\<close> and
  \<open>0xA0\<close> become spaces, and the string is cut after a \<open>?\<close> at the first other such
  code point. A pure ASCII string is left as it is.
\<close>

fun transform_chars :: "string \<Rightarrow> string" where
  "transform_chars [] = []"
| "transform_chars (c # cs) =
     (if (of_char c :: nat) < 127 then c # transform_chars cs
      else if c = CHR 0x85 \<or> c = CHR 0xA0 then CHR '' '' # transform_chars cs
      else ''?'')"

definition transform_decimal_and_space :: "string \<Rightarrow> string" where
  "transform_decimal_and_space s =
     (if list_all (\<lambda>c. (of_char c :: nat) < 128) s then s else transform_chars s)"

text \<open>
  Underscores are allowed between two digits only, and are removed; \<open>prev\<close> is the
  character before the current one.
\<close>

fun underscores_loop :: "char \<Rightarrow> string \<Rightarrow> string option" where
  "underscores_loop prev [] = (if prev = CHR ''_'' then None else Some [])"
| "underscores_loop prev (c # cs) =
     (if c = CHR 0x00 then None
      else if c = CHR ''_'' then (if is_digit prev then underscores_loop c cs else None)
      else if prev = CHR ''_'' \<and> \<not> is_digit c then None
      else map_option ((#) c) (underscores_loop c cs))"

definition remove_underscores :: "string \<Rightarrow> string option" where
  "remove_underscores s =
     (if CHR ''_'' \<in> set s then underscores_loop (CHR 0x00) s else Some s)"

definition parse_sign :: "string \<Rightarrow> bool \<times> string" where
  "parse_sign s =
     (case s of
        [] \<Rightarrow> (False, [])
      | c # r \<Rightarrow> if c = CHR ''-'' then (True, r) else if c = CHR ''+'' then (False, r)
                 else (False, s))"

text \<open>
  A decimal literal: sign, digits, an optional point and digits (one digit at least),
  an optional exponent with one digit at least. The result \<open>(neg, D, E)\<close> stands for
  \<open>(-1)^neg * D * 10^E\<close>. The whole string must be used up.
\<close>

definition parse_decimal :: "string \<Rightarrow> (bool \<times> int \<times> int) option" where
  "parse_decimal s =
     (let (neg, s1) = parse_sign s;
          ip = takeWhile is_digit s1;
          s2 = dropWhile is_digit s1;
          has_point = (s2 \<noteq> [] \<and> hd s2 = CHR ''.'');
          fp = (if has_point then takeWhile is_digit (tl s2) else []);
          s3 = (if has_point then dropWhile is_digit (tl s2) else s2);
          D = digits_value (ip @ fp);
          fraclen = int (length fp)
      in if ip = [] \<and> fp = [] then None
         else if s3 = [] then Some (neg, D, - fraclen)
         else if hd s3 = CHR ''e'' \<or> hd s3 = CHR ''E'' then
           (let (eneg, s4) = parse_sign (tl s3)
            in if s4 \<noteq> [] \<and> list_all is_digit s4
               then Some (neg, D,
                      (if eneg then - digits_value s4 else digits_value s4) - fraclen)
               else None)
         else None)"

definition parse_inf_or_nan :: "string \<Rightarrow> pyfloat option" where
  "parse_inf_or_nan s =
     (let (neg, r) = parse_sign s; l = map to_lower r
      in if l = ''inf'' \<or> l = ''infinity'' then Some (Infinity neg)
         else if l = ''nan'' then Some NaN
         else None)"

text \<open>The correctly rounded value of \<open>D * 10^E\<close>.\<close>

definition decimal_to_double :: "bool \<Rightarrow> int \<Rightarrow> int \<Rightarrow> pyfloat" where
  "decimal_to_double neg D E =
     (if 0 \<le> E then round_to_double neg (D * 10 ^ nat E) 1
      else round_to_double neg D (10 ^ nat (- E)))"

definition float_from_string_inner :: "string \<Rightarrow> exn \<Rightarrow> exn + pyfloat" where
  "float_from_string_inner s err =
     (let s1 = dropWhile is_space s
      in if s1 = [] then Inl err
         else
           let s2 = rev (dropWhile is_space (rev s1))
           in case parse_decimal s2 of
                Some (neg, D, E) \<Rightarrow> Inr (decimal_to_double neg D E)
              | None \<Rightarrow>
                  (case parse_inf_or_nan s2 of
                     Some x \<Rightarrow> Inr x
                   | None \<Rightarrow> Inl err))"

definition py_float :: "string \<Rightarrow> exn + pyfloat" where
  "py_float v =
     (let err = ValueError (''could not convert string to float: '' @ str_repr v)
      in case remove_underscores (transform_decimal_and_space v) of
           None \<Rightarrow> Inl err
         | Some s \<Rightarrow> float_from_string_inner s err)"

subsection \<open>\<open>repr(float)\<close>\<close>

text \<open>
  \<open>decimal_exponent num den\<close> is the integer \<open>k\<close> with
  \<open>10^(k-1) \<le> num / den < 10^k\<close>, for positive \<open>num\<close> and \<open>den\<close>.
\<close>

definition decimal_exponent :: "int \<Rightarrow> int \<Rightarrow> int" where
  "decimal_exponent num den =
     (if den \<le> num then digits_len (num div den)
      else
        let t = digits_len (den div num)
        in if num * 10 ^ nat (t - 1) = den then 2 - t else 1 - t)"

text \<open>
  The two decimal numbers of \<open>n\<close> digits around \<open>num / den\<close> are \<open>lo * 10^(k-n)\<close> and
  \<open>(lo + 1) * 10^(k-n)\<close>. \<open>repr_try\<close> returns the one that \<open>float\<close> reads back as the
  value \<open>Finite False m e\<close>, the nearer one when both do (the even one on a tie), and
  \<open>None\<close> when neither does.
\<close>

definition repr_try :: "int \<Rightarrow> int \<Rightarrow> int \<Rightarrow> int \<Rightarrow> int \<Rightarrow> nat \<Rightarrow> int option" where
  "repr_try m e num den k n =
     (let sn = (if k \<le> int n then num * 10 ^ nat (int n - k) else num);
          sd = (if k \<le> int n then den else den * 10 ^ nat (k - int n));
          lo = sn div sd;
          r = sn mod sd;
          hi = lo + 1;
          lo_ok = (decimal_to_double False lo (k - int n) = Finite False m e);
          hi_ok = (decimal_to_double False hi (k - int n) = Finite False m e)
      in if lo_ok \<and> hi_ok then Some (if 2 * r < sd \<or> (2 * r = sd \<and> even lo) then lo else hi)
         else if lo_ok then Some lo
         else if hi_ok then Some hi
         else None)"

definition repr_nearest :: "int \<Rightarrow> int \<Rightarrow> int \<Rightarrow> nat \<Rightarrow> int" where
  "repr_nearest num den k n =
     (let sn = (if k \<le> int n then num * 10 ^ nat (int n - k) else num);
          sd = (if k \<le> int n then den else den * 10 ^ nat (k - int n));
          lo = sn div sd;
          r = sn mod sd
      in if 2 * r < sd \<or> (2 * r = sd \<and> even lo) then lo else lo + 1)"

text \<open>
  The shortest digit string that reads back as the same float: \<open>n = 1, 2, ...\<close> digits
  are tried in turn, and 17 digits always suffice.
\<close>

fun repr_search :: "int \<Rightarrow> int \<Rightarrow> int \<Rightarrow> int \<Rightarrow> int \<Rightarrow> nat \<Rightarrow> nat \<Rightarrow> int \<times> nat" where
  "repr_search m e num den k 0 n = (repr_nearest num den k n, n)"
| "repr_search m e num den k (Suc fuel) n =
     (case repr_try m e num den k n of
        Some c \<Rightarrow> (c, n)
      | None \<Rightarrow> repr_search m e num den k fuel (Suc n))"

text \<open>
  The digits of a positive finite float and the position \<open>decpt\<close> of its decimal point:
  the value is \<open>0.d1d2... * 10^decpt\<close>.
\<close>

definition shortest_digits :: "int \<Rightarrow> int \<Rightarrow> string \<times> int" where
  "shortest_digits m e =
     (let num = (if 0 \<le> e then m * 2 ^ nat e else m);
          den = (if 0 \<le> e then 1 else 2 ^ nat (- e));
          k = decimal_exponent num den;
          (c, n) = repr_search m e num den k 16 1;
          ds = digits_str c
      in (rev (dropWhile (\<lambda>d. d = CHR ''0'') (rev ds)), k - int n + int (length ds)))"

definition exponent_str :: "int \<Rightarrow> string" where
  "exponent_str x =
     (if x < 0 then ''-'' else ''+'') @ (if \<bar>x\<bar> < 10 then ''0'' else []) @ digits_str \<bar>x\<bar>"

text \<open>
  The layout of \<open>repr\<close>: exponent notation when \<open>decpt \<le> -4\<close> or \<open>16 < decpt\<close>, and a
  \<open>.0\<close> after a whole number otherwise.
\<close>

definition format_repr :: "string \<Rightarrow> int \<Rightarrow> string" where
  "format_repr ds decpt =
     (let n = int (length ds)
      in if decpt \<le> - 4 \<or> 16 < decpt then
           take 1 ds @ (if 1 < n then ''.'' @ drop 1 ds else []) @ ''e'' @ exponent_str (decpt - 1)
         else if decpt \<le> 0 then ''0.'' @ replicate (nat (- decpt)) (CHR ''0'') @ ds
         else if n \<le> decpt then ds @ replicate (nat (decpt - n)) (CHR ''0'') @ ''.0''
         else take (nat decpt) ds @ ''.'' @ drop (nat decpt) ds)"

fun float_repr :: "pyfloat \<Rightarrow> string" where
  "float_repr NaN = ''nan''"
| "float_repr (Infinity neg) = (if neg then ''-inf'' else ''inf'')"
| "float_repr (Finite neg m e) =
     (if neg then ''-'' else []) @
     (if m = 0 then ''0.0'' else let (ds, decpt) = shortest_digits m e in format_repr ds decpt)"

text \<open>What an f-string shows for a number: \<open>str(int)\<close> or \<open>repr(float)\<close>.\<close>

fun py_str :: "pynum \<Rightarrow> string" where
  "py_str (PInt i) = int_str i"
| "py_str (PFloat x) = float_repr x"

subsection \<open>Comparison\<close>

text \<open>
  Python's \<open>==\<close> on numbers: NaN is equal to nothing, the two zeros are equal, and an
  \<open>int\<close> is compared with a \<open>float\<close> by exact value.
\<close>

fun float_eq :: "pyfloat \<Rightarrow> pyfloat \<Rightarrow> bool" where
  "float_eq (Finite s m e) (Finite t n f) =
     ((m = 0 \<and> n = 0) \<or>
      (if s then - m else m) * 2 ^ nat (e - min e f) =
      (if t then - n else n) * 2 ^ nat (f - min e f))"
| "float_eq (Infinity s) (Infinity t) = (s = t)"
| "float_eq _ _ = False"

fun float_eq_int :: "pyfloat \<Rightarrow> int \<Rightarrow> bool" where
  "float_eq_int (Finite s m e) i =
     ((if s then - m else m) * 2 ^ nat e = i * 2 ^ nat (- e))"
| "float_eq_int _ i = False"

fun py_eq :: "pynum \<Rightarrow> pynum \<Rightarrow> bool" where
  "py_eq (PInt a) (PInt b) = (a = b)"
| "py_eq (PFloat x) (PFloat y) = float_eq x y"
| "py_eq (PFloat x) (PInt b) = float_eq_int x b"
| "py_eq (PInt a) (PFloat y) = float_eq_int y a"

section \<open>Console input and output\<close>

text \<open>
  \<open>stdin\<close> holds the lines that successive calls of \<open>input()\<close> return, without their
  line ends; the empty list is the end of the input. \<open>console\<close> is what the program has
  written, in order: the prompts of \<open>input\<close> (no line end) and the lines of \<open>print\<close>.
\<close>

datatype out_event = Prompt string | Line string

record world =
  stdin :: "string list"
  console :: "out_event list"

definition print :: "string \<Rightarrow> world \<Rightarrow> world" where
  "print s w = w\<lparr>console := console w @ [Line s]\<rparr>"

text \<open>\<open>input(prompt)\<close> writes the prompt, then reads a line or raises \<open>EOFError\<close>.\<close>

definition input :: "string \<Rightarrow> world \<Rightarrow> (exn + string) \<times> world" where
  "input prompt w =
     (let w' = w\<lparr>console := console w @ [Prompt prompt]\<rparr>
      in case stdin w of
           [] \<Rightarrow> (Inl (EOFError ''EOF when reading a line''), w')
         | l # ls \<Rightarrow> (Inr l, w'\<lparr>stdin := ls\<rparr>))"

text \<open>The prompts among the events written, in order.\<close>

fun prompts :: "out_event list \<Rightarrow> string list" where
  "prompts [] = []"
| "prompts (Prompt p # es) = p # prompts es"
| "prompts (Line l # es) = prompts es"

section \<open>The program\<close>

text \<open>\<open>def add_two_numbers(a, b): return a + b\<close>\<close>

definition add_two_numbers :: "pynum \<Rightarrow> pynum \<Rightarrow> exn + pynum" where
  "add_two_numbers a b = py_add a b"

text \<open>\<open>f"The sum of {num1} and {num2} is: {result}"\<close>\<close>

definition sum_line :: "pynum \<Rightarrow> pynum \<Rightarrow> pynum \<Rightarrow> string" where
  "sum_line a b r = ''The sum of '' @ py_str a @ '' and '' @ py_str b @ '' is: '' @ py_str r"

text \<open>
  The body of the \<open>try\<close> statement of \<open>main\<close>: the first exception ends it, and the world
  keeps what was written and read before.
\<close>

definition try_body :: "world \<Rightarrow> (exn + unit) \<times> world" where
  "try_body w =
     (case input ''Enter the first number: '' w of
        (Inl err, w1) \<Rightarrow> (Inl err, w1)
      | (Inr line1, w1) \<Rightarrow>
     (case py_float line1 of
        Inl err \<Rightarrow> (Inl err, w1)
      | Inr user_num1 \<Rightarrow>
     (case input ''Enter the second number: '' w1 of
        (Inl err, w2) \<Rightarrow> (Inl err, w2)
      | (Inr line2, w2) \<Rightarrow>
     (case py_float line2 of
        Inl err \<Rightarrow> (Inl err, w2)
      | Inr user_num2 \<Rightarrow>
     (case add_two_numbers (PFloat user_num1) (PFloat user_num2) of
        Inl err \<Rightarrow> (Inl err, w2)
      | Inr user_result \<Rightarrow>
          (Inr (), print (sum_line (PFloat user_num1) (PFloat user_num2) user_result) w2))))))"

text \<open>
  \<open>main\<close>: the demonstration, then the \<open>try\<close> statement, whose handler catches
  \<open>ValueError\<close> only; any other exception leaves \<open>main\<close>.
\<close>

definition main :: "world \<Rightarrow> (exn + unit) \<times> world" where
  "main w =
     (let num1 = PInt 5; num2 = PInt 3
      in case add_two_numbers num1 num2 of
           Inl err \<Rightarrow> (Inl err, w)
         | Inr result \<Rightarrow>
             (let w1 = print (sum_line num1 num2 result) w
              in case try_body w1 of
                   (Inl (ValueError msg), w2) \<Rightarrow> (Inr (), print (''Error: '' @ msg) w2)
                 | (res, w2) \<Rightarrow> (res, w2)))"

text \<open>
  Running the file as a script on the given input lines: \<open>main()\<close> is called, and the
  exit status is 0 when it returns and 1 when an exception leaves it.
\<close>

record outcome =
  exit_status :: nat
  written :: "out_event list"
  unread :: "string list"

definition run :: "string list \<Rightarrow> outcome" where
  "run lines =
     (case main \<lparr>stdin = lines, console = []\<rparr> of
        (res, w) \<Rightarrow>
          \<lparr>exit_status = (case res of Inl err \<Rightarrow> 1 | Inr u \<Rightarrow> 0),
           written = console w,
           unread = stdin w\<rparr>)"

section \<open>Properties of the float arithmetic\<close>

text \<open>
  Rounding gives back a value that is a binary64 number already, so adding a zero
  changes nothing; and the float sum does not depend on the order of its operands.
\<close>

lemma bitlen_one: "bitlen 1 = 1"
  by (simp add: bitlen_alt_def)

lemma bitlen_normal:
  assumes "2 ^ 52 \<le> m" and "m < 2 ^ 53"
  shows "bitlen m = 53"
  using bitlen_twopow_add_eq [of "m - 2 ^ 52" 52] assms by simp

lemma round_quotient_exact:
  fixes m e n d :: int
  assumes m: "0 < m" "m < 2 ^ 53"
    and e: "- 1074 \<le> e" "e \<le> 971" "2 ^ 52 \<le> m \<or> e = - 1074"
    and d: "0 < d"
    and fl: "max (floor_log2 n d - 52) (- 1074) = e"
    and num: "(if 0 \<le> e then n else n * 2 ^ nat (- e)) = m * (if 0 \<le> e then d * 2 ^ nat e else d)"
  shows "round_to_double s n d = Finite s m e"
proof -
  let ?den = "if 0 \<le> e then d * 2 ^ nat e else d"
  have den: "0 < ?den" using d by simp
  have n0: "n \<noteq> 0" using num m den
    by (metis mult_eq_0_iff less_irrefl)
  have q: "(m * ?den) div ?den = m" and r: "(m * ?den) mod ?den = 0"
    using den by simp_all
  show ?thesis
    unfolding round_to_double_def Let_def fl num q r
    using n0 m e den by (simp del: power_strict_increasing_iff)
qed

lemma floor_log2_pow2:
  assumes "0 < n"
  shows "floor_log2 n (2 ^ c) = bitlen n - 1 - int c"
proof -
  have bl: "bitlen ((2::int) ^ c) = int c + 1"
    using bitlen_pow2 [of 1 c] by (simp add: bitlen_one)
  have low: "2 ^ nat (bitlen n - 1) \<le> n" and pos: "1 \<le> bitlen n"
    using bitlen_bounds [OF assms] bitlen_eq_zero_iff [of n] bitlen_nonneg [of n] assms
    by auto
  let ?k = "bitlen n - (int c + 1)"
  have "(if 0 \<le> ?k then 2 ^ c * 2 ^ nat ?k \<le> n else 2 ^ c \<le> n * 2 ^ nat (- ?k))"
  proof (cases "0 \<le> ?k")
    case True
    then have "c + nat ?k = nat (bitlen n - 1)" by simp
    then have "(2::int) ^ c * 2 ^ nat ?k = 2 ^ nat (bitlen n - 1)"
      by (simp flip: power_add)
    with low True show ?thesis by simp
  next
    case False
    then have "c = nat (bitlen n - 1) + nat (- ?k)" using pos by simp
    then have "(2::int) ^ c = 2 ^ nat (bitlen n - 1) * 2 ^ nat (- ?k)"
      by (metis power_add)
    moreover have "2 ^ nat (bitlen n - 1) * 2 ^ nat (- ?k) \<le> n * (2::int) ^ nat (- ?k)"
      using low by (simp add: mult_right_mono)
    ultimately show ?thesis using False by simp
  qed
  then show ?thesis
    unfolding floor_log2_def Let_def bl by (simp split: if_splits)
qed

lemma round_to_double_exact:
  assumes "is_double (Finite s m e)" and "m \<noteq> 0"
  shows "round_to_double s (m * 2 ^ nat (e + 1074)) (2 ^ 1074) = Finite s m e"
proof (rule round_quotient_exact)
  from assms show m: "0 < m" "m < 2 ^ 53" and e: "- 1074 \<le> e" "e \<le> 971" "2 ^ 52 \<le> m \<or> e = - 1074"
    by auto
  show "0 < (2::int) ^ 1074" by simp
  have bl: "bitlen (m * 2 ^ nat (e + 1074)) = bitlen m + (e + 1074)"
    using m e by (simp add: bitlen_pow2)
  have pos: "0 < m * 2 ^ nat (e + 1074)" using m by simp
  have fl: "floor_log2 (m * 2 ^ nat (e + 1074)) (2 ^ 1074) = bitlen m + e - 1"
    unfolding floor_log2_pow2 [OF pos] bl by simp
  show "max (floor_log2 (m * 2 ^ nat (e + 1074)) (2 ^ 1074) - 52) (- 1074) = e"
  proof (cases "2 ^ 52 \<le> m")
    case True
    with m have "bitlen m = 53" by (simp add: bitlen_normal)
    with e show ?thesis unfolding fl by simp
  next
    case False
    with e have e': "e = - 1074" by simp
    from False have "bitlen m \<le> 52" by (simp add: bitlen_le_iff_power)
    with e' show ?thesis unfolding fl by simp
  qed
  show "(if 0 \<le> e then m * 2 ^ nat (e + 1074) else m * 2 ^ nat (e + 1074) * 2 ^ nat (- e)) =
        m * (if 0 \<le> e then 2 ^ 1074 * 2 ^ nat e else 2 ^ 1074)"
  proof (cases "0 \<le> e")
    case True
    then have "nat (e + 1074) = 1074 + nat e" by simp
    then show ?thesis using True by (simp only: power_add if_True)
  next
    case False
    with e have "nat (e + 1074) + nat (- e) = 1074" by simp
    then have "(2::int) ^ nat (e + 1074) * 2 ^ nat (- e) = 2 ^ 1074"
      by (metis power_add)
    then show ?thesis using False by (simp only: if_False mult.assoc)
  qed
qed


lemma float_add_commute: "float_add x y = float_add y x"
proof (cases x)
  case fx: (Finite sa ma ea)
  show ?thesis
  proof (cases y)
    case (Finite sb mb eb)
    with fx show ?thesis
      by (simp add: Let_def min.commute add.commute conj_commute)
  qed (simp_all add: fx)
next
  case ix: (Infinity s)
  show ?thesis by (cases y) (auto simp: ix)
next
  case NaN
  then show ?thesis by (cases y) simp_all
qed

lemma py_add_commute: "py_add a b = py_add b a"
  by (cases a; cases b) (simp_all add: add.commute float_add_commute split: sum.splits)

lemma float_add_zero:
  assumes "is_double (Finite s m e)" and "m \<noteq> 0"
  shows "float_add (Finite s m e) (Finite t 0 (- 1074)) = Finite s m e"
proof -
  from assms have m: "0 < m" and e: "- 1074 \<le> e" by auto
  have min_e: "min e (- 1074) = - 1074" using e by simp
  let ?total = "(if s then - m else m) * 2 ^ nat (e + 1074)"
  have total: "?total \<noteq> 0" "(?total < 0) = s" "\<bar>?total\<bar> = m * 2 ^ nat (e + 1074)"
    using m by (auto simp: abs_mult mult_less_0_iff zero_less_mult_iff)
  have "float_add (Finite s m e) (Finite t 0 (- 1074)) =
        round_to_double (?total < 0) \<bar>?total\<bar> (2 ^ 1074)"
    using total(1) by (simp add: Let_def min_e del: abs_mult)
  also have "\<dots> = round_to_double s (m * 2 ^ nat (e + 1074)) (2 ^ 1074)"
    by (simp only: total)
  also have "\<dots> = Finite s m e"
    by (rule round_to_double_exact [OF assms])
  finally show ?thesis .
qed

lemma int_to_float_zero: "int_to_float 0 = Inr (Finite False 0 (- 1074))"
  by (simp add: int_to_float_def round_to_double_def)

lemma float_eq_refl:
  assumes "\<not> is_nan x"
  shows "float_eq x x"
  using assms by (cases x) simp_all

lemma float_add_zero_eq:
  assumes "is_double x" and "\<not> is_nan x"
  shows "float_eq (float_add x (Finite False 0 (- 1074))) x"
proof (cases x)
  case (Finite s m e)
  show ?thesis
  proof (cases "m = 0")
    case True
    with Finite show ?thesis by (simp add: Let_def)
  next
    case False
    with assms Finite have "float_add x (Finite False 0 (- 1074)) = x"
      using float_add_zero [of s m e False] by simp
    with assms show ?thesis by (simp add: float_eq_refl)
  qed
next
  case (Infinity s)
  then show ?thesis by simp
next
  case NaN
  with assms show ?thesis by simp
qed

lemma le_div_iff_int:
  fixes k n d :: int
  assumes "0 < d"
  shows "k \<le> n div d \<longleftrightarrow> k * d \<le> n"
proof
  assume "k \<le> n div d"
  then have "k * d \<le> (n div d) * d" using assms by (simp add: mult_right_mono)
  moreover have "n = (n div d) * d + n mod d" by simp
  moreover have "0 \<le> n mod d" using assms by simp
  ultimately show "k * d \<le> n" by linarith
next
  assume "k * d \<le> n"
  then have "(k * d) div d \<le> n div d" using assms by (rule zdiv_mono1)
  then show "k \<le> n div d" using assms by simp
qed

lemma div_less_iff_int:
  fixes k n d :: int
  assumes "0 < d"
  shows "n div d < k \<longleftrightarrow> n < k * d"
  using le_div_iff_int [OF assms, of k n] by linarith

lemma round_int_infinity_iff:
  fixes n :: int
  assumes "0 \<le> n"
  shows "(\<exists>t. round_to_double s n 1 = Infinity t) \<longleftrightarrow> 2 ^ 1024 - 2 ^ 970 \<le> n"
proof (cases "n = 0")
  case True
  then show ?thesis by (simp add: round_to_double_def)
next
  case False
  with assms have n: "0 < n" by simp
  define b where "b = bitlen n"
  have fl: "floor_log2 n 1 = b - 1"
    using floor_log2_pow2 [OF n, of 0] by (simp add: b_def)
  have b1: "1 \<le> b"
    using bitlen_eq_zero_iff [of n] bitlen_nonneg [of n] n by (simp add: b_def)
  have lo: "2 ^ nat (b - 1) \<le> n" and hi: "n < 2 ^ nat b"
    using bitlen_bounds [OF n] by (simp_all add: b_def)
  define e where "e = b - 53"
  have mx: "max (floor_log2 n 1 - 52) (- 1074) = e"
    using b1 by (simp add: fl e_def)
  show ?thesis
  proof (cases "e < 0")
    case True
    then have "nat b + nat (- e) = 53" using b1 by (simp add: e_def)
    then have "(2::int) ^ nat b * 2 ^ nat (- e) = 2 ^ 53" by (metis power_add)
    moreover have "n * 2 ^ nat (- e) < 2 ^ nat b * 2 ^ nat (- e)"
      using hi by (simp add: mult_strict_right_mono)
    ultimately have small: "n * 2 ^ nat (- e) < 2 ^ 53" by simp
    have "nat b \<le> 52" using True by (simp add: e_def)
    then have "(2::int) ^ nat b \<le> 2 ^ 52" by (rule power_increasing) simp
    with hi have "n < 2 ^ 52" by simp
    then have nb: "\<not> 2 ^ 1024 - 2 ^ 970 \<le> n" by simp
    have "round_to_double s n 1 = Finite s (n * 2 ^ nat (- e)) e"
      unfolding round_to_double_def Let_def mx using True False small by simp
    with nb show ?thesis by simp
  next
    case False
    then have e0: "0 \<le> e" by simp
    define den :: int where "den = 2 ^ nat e"
    define q where "q = n div den"
    define r where "r = n mod den"
    have den: "0 < den" by (simp add: den_def)
    have nqr: "n = q * den + r" and r: "0 \<le> r" "r < den"
      using den by (simp_all add: q_def r_def)
    have "nat (b - 1) = 52 + nat e" "nat b = 53 + nat e" using e0 b1 by (simp_all add: e_def)
    then have p1: "(2::int) ^ nat (b - 1) = 2 ^ 52 * den" and p2: "(2::int) ^ nat b = 2 ^ 53 * den"
      by (simp_all add: den_def power_add)
    have qlo: "2 ^ 52 \<le> q"
      unfolding q_def le_div_iff_int [OF den] using lo p1 by simp
    have qhi: "q < 2 ^ 53"
      unfolding q_def div_less_iff_int [OF den] using hi p2 by simp
    define m where "m = (if den < 2 * r \<or> (2 * r = den \<and> odd q) then q + 1 else q)"
    have rnd: "round_to_double s n 1 =
        (if 971 < (if m = 2 ^ 53 then e + 1 else e) then Infinity s
         else Finite s (if m = 2 ^ 53 then 2 ^ 52 else m) (if m = 2 ^ 53 then e + 1 else e))"
      unfolding round_to_double_def Let_def mx m_def q_def r_def den_def
      using e0 \<open>n \<noteq> 0\<close> by simp
    have inf: "(\<exists>t. round_to_double s n 1 = Infinity t) \<longleftrightarrow>
               971 < (if m = 2 ^ 53 then e + 1 else e)"
      unfolding rnd by simp
    consider "972 \<le> e" | "e \<le> 970" | "e = 971" by linarith
    then show ?thesis
    proof cases
      case 1
      then have "1024 \<le> nat (b - 1)" by (simp add: e_def)
      then have "(2::int) ^ 1024 \<le> 2 ^ nat (b - 1)" by (rule power_increasing) simp
      with lo have "2 ^ 1024 \<le> n" by simp
      then have "2 ^ 1024 - 2 ^ 970 \<le> n" by simp
      with 1 show ?thesis unfolding inf by simp
    next
      case 2
      then have "nat b \<le> 1023" by (simp add: e_def)
      then have "(2::int) ^ nat b \<le> 2 ^ 1023" by (rule power_increasing) simp
      with hi have "n < 2 ^ 1023" by simp
      then have "\<not> 2 ^ 1024 - 2 ^ 970 \<le> n" by simp
      with 2 show ?thesis unfolding inf by simp
    next
      case 3
      then have d: "den = 2 ^ 971" by (simp add: den_def)
      have "971 < (if m = 2 ^ 53 then e + 1 else e) \<longleftrightarrow> m = 2 ^ 53" using 3 by simp
      also have "\<dots> \<longleftrightarrow> q = 2 ^ 53 - 1 \<and> (den < 2 * r \<or> (2 * r = den \<and> odd q))"
        using qhi by (auto simp: m_def)
      also have "\<dots> \<longleftrightarrow> q = 2 ^ 53 - 1 \<and> den \<le> 2 * r"
        by auto
      also have "\<dots> \<longleftrightarrow> 2 ^ 1024 - 2 ^ 970 \<le> n"
      proof
        assume "q = 2 ^ 53 - 1 \<and> den \<le> 2 * r"
        then show "2 ^ 1024 - 2 ^ 970 \<le> n" unfolding nqr d by simp
      next
        assume bound: "2 ^ 1024 - 2 ^ 970 \<le> n"
        have "(2 ^ 53 - 1) * den \<le> n" using bound unfolding d by simp
        then have "2 ^ 53 - 1 \<le> q" unfolding q_def le_div_iff_int [OF den] .
        with qhi have q: "q = 2 ^ 53 - 1" by simp
        with nqr bound have "den \<le> 2 * r" unfolding d by simp
        with q show "q = 2 ^ 53 - 1 \<and> den \<le> 2 * r" by simp
      qed
      finally show ?thesis unfolding inf .
    qed
  qed
qed


lemma int_to_float_cases:
  "int_to_float i =
     (if 2 ^ 1024 - 2 ^ 970 \<le> \<bar>i\<bar> then Inl (OverflowError ''int too large to convert to float'')
      else Inr (round_to_double (i < 0) \<bar>i\<bar> 1))"
proof -
  have "(\<exists>t. round_to_double (i < 0) \<bar>i\<bar> 1 = Infinity t) \<longleftrightarrow> 2 ^ 1024 - 2 ^ 970 \<le> \<bar>i\<bar>"
    by (rule round_int_infinity_iff) simp
  then show ?thesis
    unfolding int_to_float_def by (cases "round_to_double (i < 0) \<bar>i\<bar> 1") auto
qed

subsection \<open>The results of rounding are binary64 values\<close>

text \<open>
  The bounds are proved over the reals: \<open>floor_log2 n d\<close> is the binary exponent of
  \<open>n / d\<close>, so the quotient that is rounded lies below \<open>2^53\<close>, and at or above \<open>2^52\<close>
  outside the subnormal range.
\<close>

lemma powi_nat: "0 \<le> j \<Longrightarrow> real_of_int (2 ^ nat j) = 2 powi j"
  by (simp add: power_int_def)

lemma powi_pos: "0 < (2::real) powi j"
  by (simp add: zero_less_power_int)

lemma powi_sum: "(2::real) powi (i + j) = 2 powi i * 2 powi j"
  by (simp add: power_int_add)

lemma powi_cancel: "(2::real) powi (- j) * 2 powi j = 1"
  using powi_sum [of "- j" j] by simp

lemma bitlen_real_bounds:
  assumes "0 < n"
  shows "2 powi (bitlen n - 1) \<le> real_of_int n" and "real_of_int n < 2 powi bitlen n"
proof -
  have b: "1 \<le> bitlen n"
    using bitlen_eq_zero_iff [of n] bitlen_nonneg [of n] assms by simp
  from bitlen_bounds [OF assms] have lo: "2 ^ nat (bitlen n - 1) \<le> n" and hi: "n < 2 ^ nat (bitlen n)"
    by simp_all
  have "real_of_int (2 ^ nat (bitlen n - 1)) \<le> real_of_int n"
    using lo by (rule of_int_le_iff [THEN iffD2])
  moreover have "real_of_int (2 ^ nat (bitlen n - 1)) = 2 powi (bitlen n - 1)"
    using b by (intro powi_nat) simp
  ultimately show "2 powi (bitlen n - 1) \<le> real_of_int n" by (simp only:)
  have "real_of_int n < real_of_int (2 ^ nat (bitlen n))"
    using hi by (rule of_int_less_iff [THEN iffD2])
  moreover have "real_of_int (2 ^ nat (bitlen n)) = 2 powi bitlen n"
    using b by (intro powi_nat) simp
  ultimately show "real_of_int n < 2 powi bitlen n" by (simp only:)
qed

text \<open>The quotient that \<open>round_to_double\<close> divides out is \<open>n / d\<close> scaled by \<open>2^(-e)\<close>.\<close>

lemma scaled_quotient:
  fixes n d e :: int
  assumes "0 < d"
  shows "real_of_int (if 0 \<le> e then n else n * 2 ^ nat (- e)) /
         real_of_int (if 0 \<le> e then d * 2 ^ nat e else d) =
         real_of_int n / real_of_int d * 2 powi (- e)"
proof (cases "0 \<le> e")
  case True
  then have "real_of_int (d * 2 ^ nat e) = real_of_int d * 2 powi e"
    by (simp add: power_int_def)
  with True show ?thesis by (simp add: power_int_minus divide_inverse)
next
  case False
  then have "real_of_int (n * 2 ^ nat (- e)) = real_of_int n * 2 powi (- e)"
    by (simp add: power_int_def)
  with False show ?thesis by simp
qed

lemma floor_log2_cond:
  fixes n d k :: int
  assumes "0 < d"
  shows "(if 0 \<le> k then d * 2 ^ nat k \<le> n else d \<le> n * 2 ^ nat (- k)) \<longleftrightarrow>
         2 powi k \<le> real_of_int n / real_of_int d"
proof (cases "0 \<le> k")
  case True
  have "d * 2 ^ nat k \<le> n \<longleftrightarrow> real_of_int (d * 2 ^ nat k) \<le> real_of_int n"
    by (simp only: of_int_le_iff)
  also have "\<dots> \<longleftrightarrow> 2 powi k * real_of_int d \<le> real_of_int n"
    using True by (simp add: power_int_def mult.commute)
  also have "\<dots> \<longleftrightarrow> 2 powi k \<le> real_of_int n / real_of_int d"
    using assms by (simp add: pos_le_divide_eq)
  finally show ?thesis using True by simp
next
  case False
  have s1: "d \<le> n * 2 ^ nat (- k) \<longleftrightarrow> real_of_int d \<le> real_of_int (n * 2 ^ nat (- k))"
    by (simp only: of_int_le_iff)
  have s2: "real_of_int (n * 2 ^ nat (- k)) = real_of_int n * 2 powi (- k)"
    using False by (simp add: power_int_def)
  have s3: "real_of_int d \<le> real_of_int n * 2 powi (- k) \<longleftrightarrow>
            real_of_int d * 2 powi k \<le> real_of_int n * 2 powi (- k) * 2 powi k"
    using powi_pos [of k] by (simp only: mult_le_cancel_right_pos)
  have s4: "real_of_int n * 2 powi (- k) * 2 powi k = real_of_int n"
    using powi_cancel [of k] by (simp only: mult.assoc mult_1_right)
  have s5: "real_of_int d * 2 powi k \<le> real_of_int n \<longleftrightarrow>
            2 powi k \<le> real_of_int n / real_of_int d"
    using assms by (simp add: pos_le_divide_eq mult.commute)
  have "d \<le> n * 2 ^ nat (- k) \<longleftrightarrow> 2 powi k \<le> real_of_int n / real_of_int d"
    unfolding s1 s2 s3 s4 s5 ..
  then show ?thesis using False by simp
qed

lemma floor_log2_bounds:
  assumes n: "0 < n" and d: "0 < d"
  shows "2 powi floor_log2 n d \<le> real_of_int n / real_of_int d"
    and "real_of_int n / real_of_int d < 2 powi (floor_log2 n d + 1)"
proof -
  let ?x = "real_of_int n / real_of_int d"
  define k where "k = bitlen n - bitlen d"
  have rd: "0 < real_of_int d" using d by simp
  note bn = bitlen_real_bounds [OF n] and bd = bitlen_real_bounds [OF d]
  have "?x < 2 powi bitlen n / real_of_int d"
    using bn(2) rd by (simp add: divide_strict_right_mono)
  also have "\<dots> \<le> 2 powi bitlen n / 2 powi (bitlen d - 1)"
    using bd(1) powi_pos [of "bitlen d - 1"] powi_pos [of "bitlen n"]
    by (simp add: frac_le)
  also have "\<dots> = 2 powi (k + 1)"
    using powi_sum [of "k + 1" "bitlen d - 1"] powi_pos [of "bitlen d - 1"]
    by (simp add: k_def field_simps)
  finally have up: "?x < 2 powi (k + 1)" .
  have "(2::real) powi (bitlen n - 1) = 2 powi (k - 1) * 2 powi bitlen d"
    using powi_sum [of "k - 1" "bitlen d"] by (simp add: k_def)
  then have "(2::real) powi (k - 1) = 2 powi (bitlen n - 1) / 2 powi bitlen d"
    using powi_pos [of "bitlen d"] by (simp add: eq_divide_eq)
  also have "\<dots> \<le> real_of_int n / 2 powi bitlen d"
    using bn(1) powi_pos [of "bitlen d"] by (simp add: divide_right_mono)
  also have "\<dots> \<le> ?x"
    using bd(2) rd n by (simp add: frac_le)
  finally have low: "2 powi (k - 1) \<le> ?x" .
  have fl: "floor_log2 n d = (if 2 powi k \<le> ?x then k else k - 1)"
    unfolding floor_log2_def Let_def k_def [symmetric] floor_log2_cond [OF d] ..
  show "2 powi floor_log2 n d \<le> ?x" using low by (simp add: fl)
  show "?x < 2 powi (floor_log2 n d + 1)" using up by (auto simp: fl not_le)
qed


text \<open>Every result of the rounding is a binary64 value.\<close>

lemma round_to_double_is_double:
  assumes "0 \<le> n" and d: "0 < d"
  shows "is_double (round_to_double s n d)"
proof (cases "n = 0")
  case True
  then show ?thesis by (simp add: round_to_double_def)
next
  case False
  with assms have n: "0 < n" by simp
  let ?x = "real_of_int n / real_of_int d"
  define k where "k = floor_log2 n d"
  define e where "e = max (k - 52) (- 1074)"
  define num where "num = (if 0 \<le> e then n else n * 2 ^ nat (- e))"
  define den where "den = (if 0 \<le> e then d * 2 ^ nat e else d)"
  define q where "q = num div den"
  define r where "r = num mod den"
  define m where "m = (if den < 2 * r \<or> (2 * r = den \<and> odd q) then q + 1 else q)"
  have low: "2 powi k \<le> ?x" and up: "?x < 2 powi (k + 1)"
    using floor_log2_bounds [OF n d] by (simp_all add: k_def)
  have den: "0 < den" and num: "0 \<le> num"
    using n d by (simp_all add: den_def num_def)
  have q0: "0 \<le> q"
    using den num by (simp add: q_def pos_imp_zdiv_nonneg_iff)
  have quot: "real_of_int num / real_of_int den = ?x * 2 powi (- e)"
    unfolding num_def den_def by (rule scaled_quotient [OF d])
  have qfloor: "q = \<lfloor>?x * 2 powi (- e)\<rfloor>"
    unfolding q_def quot [symmetric] by (simp only: floor_divide_of_int_eq)
  have "?x * 2 powi (- e) < 2 powi (k + 1) * 2 powi (- e)"
    using up powi_pos [of "- e"] by (simp only: mult_strict_right_mono)
  also have "\<dots> = 2 powi (k + 1 - e)"
    using powi_sum [of "k + 1" "- e"] by simp
  also have "\<dots> \<le> 2 powi 53"
    by (rule power_int_increasing) (simp_all add: e_def)
  finally have "?x * 2 powi (- e) < real_of_int (2 ^ 53)" by simp
  then have q53: "q < 2 ^ 53"
    unfolding qfloor by (simp only: floor_less_iff)
  have q52: "2 ^ 52 \<le> q" if "e = k - 52"
  proof -
    have "(2::real) powi 52 = 2 powi k * 2 powi (- e)"
      using powi_sum [of k "- e"] that by simp
    also have "\<dots> \<le> ?x * 2 powi (- e)"
      using low powi_pos [of "- e"] by (simp only: mult_right_mono less_imp_le)
    finally have "real_of_int (2 ^ 52) \<le> ?x * 2 powi (- e)" by simp
    then show ?thesis unfolding qfloor by (simp only: le_floor_iff)
  qed
  have e_cases: "e = k - 52 \<or> e = - 1074" and e_low: "- 1074 \<le> e"
    by (auto simp: e_def)
  have m_cases: "m = q \<or> m = q + 1" by (simp add: m_def)
  have rnd: "round_to_double s n d =
      (if 971 < (if m = 2 ^ 53 then e + 1 else e) then Infinity s
       else Finite s (if m = 2 ^ 53 then 2 ^ 52 else m) (if m = 2 ^ 53 then e + 1 else e))"
    unfolding round_to_double_def Let_def m_def r_def q_def num_def den_def e_def k_def
    using False by simp
  show ?thesis
  proof (cases "m = 2 ^ 53")
    case True
    with e_low show ?thesis unfolding rnd by simp
  next
    case False
    with m_cases q53 have m53: "m < 2 ^ 53" by auto
    from m_cases q0 have m0: "0 \<le> m" by auto
    from e_cases m_cases q52 have "2 ^ 52 \<le> m \<or> e = - 1074" by auto
    with False m53 m0 e_low show ?thesis unfolding rnd by simp
  qed
qed

lemma float_add_is_double:
  assumes "is_double x" and "is_double y"
  shows "is_double (float_add x y)"
proof (cases x)
  case fx: (Finite sa ma ea)
  show ?thesis
  proof (cases y)
    case fy: (Finite sb mb eb)
    show ?thesis
      unfolding fx fy float_add.simps Let_def
      by (simp add: round_to_double_is_double)
  qed (simp_all add: fx)
next
  case ix: (Infinity s)
  show ?thesis by (cases y) (simp_all add: ix)
next
  case NaN
  then show ?thesis by simp
qed

lemma int_to_float_is_double:
  assumes "int_to_float i = Inr x"
  shows "is_double x"
proof -
  from assms have "x = round_to_double (i < 0) \<bar>i\<bar> 1"
    by (auto simp: int_to_float_def split: pyfloat.splits)
  then show ?thesis by (simp add: round_to_double_is_double)
qed

text \<open>
  The rounding error is at most half a unit in the last place: a finite result
  \<open>m * 2^e\<close> of \<open>round_to_double s n d\<close> differs from \<open>n / d\<close> by \<open>2^e / 2\<close> at most.
\<close>

lemma round_to_double_error:
  assumes n: "0 < n" and d: "0 < d"
    and res: "round_to_double s n d = Finite t m e"
  shows "t = s"
    and "\<bar>real_of_int m * 2 powi e - real_of_int n / real_of_int d\<bar> \<le> 2 powi e / 2"
proof -
  let ?x = "real_of_int n / real_of_int d"
  define e0 where "e0 = max (floor_log2 n d - 52) (- 1074)"
  define num where "num = (if 0 \<le> e0 then n else n * 2 ^ nat (- e0))"
  define den where "den = (if 0 \<le> e0 then d * 2 ^ nat e0 else d)"
  define q where "q = num div den"
  define r where "r = num mod den"
  define m0 where "m0 = (if den < 2 * r \<or> (2 * r = den \<and> odd q) then q + 1 else q)"
  have den: "0 < den" using d by (simp add: den_def)
  have r: "0 \<le> r" "r < den" using den by (simp_all add: r_def)
  have "num = q * den + r" by (simp add: q_def r_def)
  then have "real_of_int num = real_of_int q * real_of_int den + real_of_int r"
    by (simp only: of_int_add of_int_mult)
  then have split: "real_of_int num / real_of_int den = real_of_int q + real_of_int r / real_of_int den"
    using den by (simp add: field_simps)
  have quot: "real_of_int num / real_of_int den = ?x * 2 powi (- e0)"
    unfolding num_def den_def by (rule scaled_quotient [OF d])
  have frac: "0 \<le> real_of_int r / real_of_int den" "real_of_int r / real_of_int den < 1"
    using r den by simp_all
  have half: "\<bar>real_of_int m0 - ?x * 2 powi (- e0)\<bar> \<le> 1 / 2"
  proof (cases "den < 2 * r \<or> (2 * r = den \<and> odd q)")
    case True
    then have "den \<le> 2 * r" by auto
    then have "real_of_int den \<le> 2 * real_of_int r"
      by (metis of_int_le_iff of_int_mult of_int_numeral)
    then have "1 / 2 \<le> real_of_int r / real_of_int den"
      using den by (simp add: field_simps)
    moreover have "m0 = q + 1" using True by (simp add: m0_def)
    ultimately show ?thesis
      using frac unfolding quot [symmetric] split by simp
  next
    case False
    then have "2 * r \<le> den" by auto
    then have "2 * real_of_int r \<le> real_of_int den"
      by (metis of_int_le_iff of_int_mult of_int_numeral)
    then have "real_of_int r / real_of_int den \<le> 1 / 2"
      using den by (simp add: field_simps)
    moreover have "m0 = q" using False by (simp add: m0_def)
    ultimately show ?thesis
      using frac unfolding quot [symmetric] split by simp
  qed
  have "\<bar>real_of_int m0 * 2 powi e0 - ?x\<bar> =
        \<bar>real_of_int m0 - ?x * 2 powi (- e0)\<bar> * 2 powi e0"
  proof -
    have "real_of_int m0 * 2 powi e0 - ?x = (real_of_int m0 - ?x * 2 powi (- e0)) * 2 powi e0"
      using powi_cancel [of e0] by (simp add: algebra_simps)
    then show ?thesis using powi_pos [of e0] by (simp add: abs_mult)
  qed
  also have "\<dots> \<le> 1 / 2 * 2 powi e0"
    using half powi_pos [of e0] by (simp only: mult_right_mono less_imp_le)
  finally have err0: "\<bar>real_of_int m0 * 2 powi e0 - ?x\<bar> \<le> 2 powi e0 / 2" by simp
  have rnd: "round_to_double s n d =
      (if 971 < (if m0 = 2 ^ 53 then e0 + 1 else e0) then Infinity s
       else Finite s (if m0 = 2 ^ 53 then 2 ^ 52 else m0) (if m0 = 2 ^ 53 then e0 + 1 else e0))"
    unfolding round_to_double_def Let_def m0_def r_def q_def num_def den_def e0_def
    using n by simp
  from res show "t = s" unfolding rnd by (simp split: if_splits)
  show "\<bar>real_of_int m * 2 powi e - ?x\<bar> \<le> 2 powi e / 2"
  proof (cases "m0 = 2 ^ 53")
    case True
    with res have me: "m = 2 ^ 52" "e = e0 + 1" unfolding rnd by (simp_all split: if_splits)
    have p: "(2::real) powi (e0 + 1) = 2 * 2 powi e0"
      using powi_sum [of 1 e0] by (simp add: add.commute)
    have "real_of_int m * 2 powi e = real_of_int m0 * 2 powi e0"
      unfolding me p True by simp
    moreover have "2 powi e0 / 2 \<le> (2::real) powi e / 2"
      unfolding me p using powi_pos [of e0] by simp
    ultimately show ?thesis using err0 by simp
  next
    case False
    with res have "m = m0" "e = e0" unfolding rnd by (simp_all split: if_splits)
    with err0 show ?thesis by simp
  qed
qed


text \<open>
  The float sum of two finite floats, when finite, is within half a unit in the last
  place of their exact sum.
\<close>

lemma float_add_error:
  assumes res: "float_add (Finite sa ma ea) (Finite sb mb eb) = Finite s m e"
  shows "\<bar>(if s then - 1 else 1) * real_of_int m * 2 powi e -
          ((if sa then - 1 else 1) * real_of_int ma * 2 powi ea +
           (if sb then - 1 else 1) * real_of_int mb * 2 powi eb)\<bar> \<le> 2 powi e / 2"
proof -
  define e0 where "e0 = min ea eb"
  define total where
    "total = (if sa then - ma else ma) * 2 ^ nat (ea - e0) + (if sb then - mb else mb) * 2 ^ nat (eb - e0)"
  define S where "S = (if sa then - 1 else 1) * real_of_int ma * 2 powi ea +
                      (if sb then - 1 else 1) * real_of_int mb * 2 powi eb"
  define V where "V = real_of_int m * 2 powi e"
  define B where "B = (2::real) powi e / 2"
  have B: "0 \<le> B" using powi_pos [of e] by (simp add: B_def)
  have pa: "real_of_int (2 ^ nat (ea - e0)) * 2 powi e0 = 2 powi ea"
    using powi_nat [of "ea - e0"] powi_sum [of "ea - e0" e0] by (simp add: e0_def)
  have pb: "real_of_int (2 ^ nat (eb - e0)) * 2 powi e0 = 2 powi eb"
    using powi_nat [of "eb - e0"] powi_sum [of "eb - e0" e0] by (simp add: e0_def)
  have "real_of_int total * 2 powi e0 =
        real_of_int (if sa then - ma else ma) * (real_of_int (2 ^ nat (ea - e0)) * 2 powi e0) +
        real_of_int (if sb then - mb else mb) * (real_of_int (2 ^ nat (eb - e0)) * 2 powi e0)"
    unfolding total_def by (simp only: of_int_add of_int_mult algebra_simps)
  also have "\<dots> = S" unfolding pa pb S_def by simp
  finally have S: "real_of_int total * 2 powi e0 = S" .
  have fa: "float_add (Finite sa ma ea) (Finite sb mb eb) =
      (if total = 0 then Finite (sa \<and> sb) 0 (- 1074)
       else if 0 \<le> e0 then round_to_double (total < 0) (\<bar>total\<bar> * 2 ^ nat e0) 1
       else round_to_double (total < 0) \<bar>total\<bar> (2 ^ nat (- e0)))"
    by (simp only: float_add.simps Let_def total_def e0_def)
  have "\<bar>(if s then - V else V) - S\<bar> \<le> B"
  proof (cases "total = 0")
    case True
    with res have "m = 0" unfolding fa by simp
    then have "V = 0" by (simp add: V_def)
    moreover from True S have "S = 0" by simp
    ultimately show ?thesis using B by simp
  next
    case False
    then have pos: "0 < \<bar>total\<bar>" by simp
    have abs_S: "\<bar>S\<bar> = real_of_int \<bar>total\<bar> * 2 powi e0"
      unfolding S [symmetric] using powi_pos [of e0] by (simp add: abs_mult)
    have "s = (total < 0) \<and> \<bar>V - \<bar>S\<bar>\<bar> \<le> B"
    proof (cases "0 \<le> e0")
      case True
      with False res have r: "round_to_double (total < 0) (\<bar>total\<bar> * 2 ^ nat e0) 1 = Finite s m e"
        unfolding fa by simp
      have n: "0 < \<bar>total\<bar> * 2 ^ nat e0" using pos by simp
      have "real_of_int (\<bar>total\<bar> * 2 ^ nat e0) / real_of_int 1 = \<bar>S\<bar>"
        unfolding abs_S using powi_nat [OF True] by simp
      with round_to_double_error [OF n _ r] show ?thesis by (simp add: V_def B_def)
    next
      case neg: False
      with False res have r: "round_to_double (total < 0) \<bar>total\<bar> (2 ^ nat (- e0)) = Finite s m e"
        unfolding fa by simp
      have d: "0 < (2::int) ^ nat (- e0)" by simp
      have "real_of_int (2 ^ nat (- e0)) = 2 powi (- e0)"
        using neg by (intro powi_nat) simp
      then have "real_of_int \<bar>total\<bar> / real_of_int (2 ^ nat (- e0)) = \<bar>S\<bar>"
        unfolding abs_S by (simp add: power_int_minus divide_inverse)
      with round_to_double_error [OF pos d r] show ?thesis by (simp add: V_def B_def)
    qed
    then have s: "s = (total < 0)" and err: "\<bar>V - \<bar>S\<bar>\<bar> \<le> B"
      by simp_all
    have sign: "(S < 0) = (total < 0)"
    proof -
      have "\<not> (2::real) powi e0 < 0" using powi_pos [of e0] by linarith
      then show ?thesis unfolding S [symmetric] by (auto simp: mult_less_0_iff)
    qed
    show ?thesis
    proof (cases "total < 0")
      case True
      with sign have "S < 0" by simp
      with err have "\<bar>- V - S\<bar> \<le> B" by linarith
      with True s show ?thesis by simp
    next
      case False
      with sign have "0 \<le> S" by simp
      with err have "\<bar>V - S\<bar> \<le> B" by linarith
      with False s show ?thesis by simp
    qed
  qed
  moreover have "(if s then - 1 else 1) * real_of_int m * 2 powi e = (if s then - V else V)"
    by (simp add: V_def)
  ultimately show ?thesis unfolding S_def B_def by (simp only:)
qed

lemma digit_val_nonneg: "is_digit c \<Longrightarrow> 0 \<le> digit_val c"
  by (simp add: is_digit_def digit_val_def)

lemma digits_value_nonneg_aux:
  "list_all is_digit ds \<Longrightarrow> 0 \<le> a \<Longrightarrow> 0 \<le> foldl (\<lambda>a c. 10 * a + digit_val c) a ds"
  by (induction ds arbitrary: a) (simp_all add: digit_val_nonneg)

lemma digits_value_nonneg: "list_all is_digit ds \<Longrightarrow> 0 \<le> digits_value ds"
  unfolding digits_value_def by (rule digits_value_nonneg_aux) simp_all

lemma takeWhile_digits: "list_all is_digit (takeWhile is_digit s)"
  by (induction s) simp_all

lemma parse_decimal_nonneg:
  assumes "parse_decimal s = Some (neg, D, E)"
  shows "0 \<le> D"
proof -
  have "0 \<le> digits_value (takeWhile is_digit a @ takeWhile is_digit b)" for a b
    by (rule digits_value_nonneg) (simp add: takeWhile_digits)
  moreover have "0 \<le> digits_value (takeWhile is_digit a @ [])" for a
    by (rule digits_value_nonneg) (simp add: takeWhile_digits)
  ultimately show ?thesis
    using assms
    by (auto simp: parse_decimal_def Let_def split: prod.splits if_splits)
qed

lemma decimal_to_double_is_double: "0 \<le> D \<Longrightarrow> is_double (decimal_to_double neg D E)"
  unfolding decimal_to_double_def by (auto intro!: round_to_double_is_double)

text \<open>Every float that \<open>float(str)\<close> returns is a binary64 value.\<close>

lemma py_float_is_double:
  assumes "py_float s = Inr x"
  shows "is_double x"
proof -
  have inf: "is_double z" if "parse_inf_or_nan t = Some z" for t z
    using that by (auto simp: parse_inf_or_nan_def Let_def split: prod.splits if_splits)
  from assms show ?thesis
    by (auto simp: py_float_def float_from_string_inner_def Let_def
        split: option.splits if_splits
        dest: parse_decimal_nonneg inf intro: decimal_to_double_is_double)
qed

subsection \<open>The text of a float and the text of an int\<close>

lemma format_repr_marks:
  "CHR ''.'' \<in> set (format_repr ds decpt) \<or> CHR ''e'' \<in> set (format_repr ds decpt)"
  by (auto simp: format_repr_def Let_def)

lemma float_repr_marks:
  "CHR ''.'' \<in> set (float_repr z) \<or> CHR ''e'' \<in> set (float_repr z) \<or>
   CHR ''n'' \<in> set (float_repr z)"
proof (cases z)
  case (Finite neg m e)
  show ?thesis
  proof (cases "m = 0")
    case True
    with Finite show ?thesis by simp
  next
    case False
    obtain ds decpt where sd: "shortest_digits m e = (ds, decpt)" by (cases "shortest_digits m e")
    from format_repr_marks [of ds decpt] Finite False sd show ?thesis by auto
  qed
next
  case (Infinity neg)
  then show ?thesis by simp
next
  case NaN
  then show ?thesis by simp
qed

lemma digit_chars:
  "map (\<lambda>n. char_of (48 + n)) [0, 1, 2, 3, 4, 5, 6, 7, 8, 9 :: int] = ''0123456789''"
  by code_simp

lemma digit_char:
  fixes n :: int
  assumes "0 \<le> n" and "n < 10"
  shows "char_of (48 + n) \<in> set ''0123456789''"
proof -
  from assms have "n \<in> set [0, 1, 2, 3, 4, 5, 6, 7, 8, 9]"
    by (simp del: upto.simps) arith
  then have "char_of (48 + n) \<in> set (map (\<lambda>n. char_of (48 + n)) [0, 1, 2, 3, 4, 5, 6, 7, 8, 9 :: int])"
    unfolding set_map by (rule imageI)
  then show ?thesis by (simp only: digit_chars)
qed

lemma digits_str_chars:
  "0 \<le> n \<Longrightarrow> set (digits_str n) \<subseteq> set ''0123456789''"
proof (induction n rule: digits_str.induct)
  case (1 n)
  show ?case
  proof (cases "n < 10")
    case True
    with 1 digit_char [of n] show ?thesis by (subst digits_str.simps) simp
  next
    case False
    with 1 have "set (digits_str (n div 10)) \<subseteq> set ''0123456789''" by simp
    moreover have "char_of (48 + n mod 10) \<in> set ''0123456789''"
      by (rule digit_char) simp_all
    ultimately show ?thesis using False by (subst digits_str.simps) simp
  qed
qed

lemma int_str_chars: "set (int_str i) \<subseteq> set ''-0123456789''"
proof -
  have sub: "set ''0123456789'' \<subseteq> set ''-0123456789''" by (simp only: list.set) blast
  have minus: "CHR ''-'' \<in> set ''-0123456789''" by (simp only: list.set insertI1)
  show ?thesis
  proof (cases "i < 0")
    case True
    then have "set (digits_str (- i)) \<subseteq> set ''0123456789''" by (intro digits_str_chars) simp
    with sub have "set (digits_str (- i)) \<subseteq> set ''-0123456789''" by (rule order_trans [rotated])
    with minus have "insert (CHR ''-'') (set (digits_str (- i))) \<subseteq> set ''-0123456789''"
      by (simp only: insert_subset simp_thms)
    with True show ?thesis by (simp only: int_str_def if_True list.set)
  next
    case False
    then have "set (digits_str i) \<subseteq> set ''0123456789''" by (intro digits_str_chars) simp
    with sub have "set (digits_str i) \<subseteq> set ''-0123456789''" by (rule order_trans [rotated])
    with False show ?thesis by (simp only: int_str_def if_False)
  qed
qed

lemma int_str_no_marks:
  "CHR ''.'' \<notin> set (int_str i)" "CHR ''e'' \<notin> set (int_str i)" "CHR ''n'' \<notin> set (int_str i)"
proof -
  have "CHR ''.'' \<notin> set ''-0123456789''" "CHR ''e'' \<notin> set ''-0123456789''"
       "CHR ''n'' \<notin> set ''-0123456789''"
    by simp_all
  with int_str_chars [of i]
  show "CHR ''.'' \<notin> set (int_str i)" "CHR ''e'' \<notin> set (int_str i)" "CHR ''n'' \<notin> set (int_str i)"
    by blast+
qed

lemma float_repr_not_int_str: "float_repr z \<noteq> int_str i"
proof
  assume eq: "float_repr z = int_str i"
  from float_repr_marks [of z] int_str_no_marks [of i] show False
    unfolding eq by blast
qed

section \<open>The runs of the program\<close>

text \<open>
  The demonstration cannot fail, and each way through the \<open>try\<close> statement gives one
  outcome; the five lemmas \<open>run_...\<close> cover every input.
\<close>

lemma demo_sum: "add_two_numbers (PInt 5) (PInt 3) = Inr (PInt 8)"
  by (simp add: add_two_numbers_def)

lemma demo_line: "sum_line (PInt 5) (PInt 3) (PInt 8) = ''The sum of 5 and 3 is: 8''"
  by code_simp

lemma py_float_error:
  "py_float s = Inl err \<Longrightarrow>
   err = ValueError (''could not convert string to float: '' @ str_repr s)"
  by (auto simp: py_float_def float_from_string_inner_def Let_def
      split: option.splits if_splits prod.splits)

lemma run_eof_first:
  "run [] =
     \<lparr>exit_status = 1,
      written = [Line ''The sum of 5 and 3 is: 8'', Prompt ''Enter the first number: ''],
      unread = []\<rparr>"
  by (simp add: run_def main_def try_body_def input_def print_def demo_sum demo_line)

lemma run_bad_first:
  assumes "py_float l1 = Inl err"
  shows "run (l1 # rest) =
     \<lparr>exit_status = 0,
      written = [Line ''The sum of 5 and 3 is: 8'', Prompt ''Enter the first number: '',
                 Line (''Error: could not convert string to float: '' @ str_repr l1)],
      unread = rest\<rparr>"
  using assms py_float_error [OF assms]
  by (simp add: run_def main_def try_body_def input_def print_def demo_sum demo_line)

lemma run_eof_second:
  assumes "py_float l1 = Inr x"
  shows "run [l1] =
     \<lparr>exit_status = 1,
      written = [Line ''The sum of 5 and 3 is: 8'', Prompt ''Enter the first number: '',
                 Prompt ''Enter the second number: ''],
      unread = []\<rparr>"
  using assms
  by (simp add: run_def main_def try_body_def input_def print_def demo_sum demo_line)

lemma run_bad_second:
  assumes "py_float l1 = Inr x" and "py_float l2 = Inl err"
  shows "run (l1 # l2 # rest) =
     \<lparr>exit_status = 0,
      written = [Line ''The sum of 5 and 3 is: 8'', Prompt ''Enter the first number: '',
                 Prompt ''Enter the second number: '',
                 Line (''Error: could not convert string to float: '' @ str_repr l2)],
      unread = rest\<rparr>"
  using assms py_float_error [OF assms(2)]
  by (simp add: run_def main_def try_body_def input_def print_def demo_sum demo_line)

lemma run_ok:
  assumes "py_float l1 = Inr x" and "py_float l2 = Inr y"
  shows "run (l1 # l2 # rest) =
     \<lparr>exit_status = 0,
      written = [Line ''The sum of 5 and 3 is: 8'', Prompt ''Enter the first number: '',
                 Prompt ''Enter the second number: '',
                 Line (sum_line (PFloat x) (PFloat y) (PFloat (float_add x y)))],
      unread = rest\<rparr>"
  using assms
  by (simp add: run_def main_def try_body_def input_def print_def demo_sum demo_line
      add_two_numbers_def)

lemma py_float_abc:
  "py_float ''abc'' =
     Inl (ValueError (''could not convert string to float: '' @ [CHR 0x27] @ ''abc'' @ [CHR 0x27]))"
  by code_simp

lemma str_repr_abc: "str_repr ''abc'' = [CHR 0x27] @ ''abc'' @ [CHR 0x27]"
  by code_simp

section \<open>The claims\<close>

text \<open>
  C1 (as the program behaves). On the input lines \<open>2.5\<close> and \<open>4.5\<close> the program prints,
  after the demonstration line and the two prompts, exactly the line
  \<open>The sum of 2.5 and 4.5 is: 7.0\<close>, prints no error line, reads both lines and ends
  with status 0. The sum of 2.5 and 4.5 is 7.0, not 9.0.
\<close>

theorem sum_of_2_5_and_4_5:
  "run [''2.5'', ''4.5''] =
     \<lparr>exit_status = 0,
      written = [Line ''The sum of 5 and 3 is: 8'', Prompt ''Enter the first number: '',
                 Prompt ''Enter the second number: '',
                 Line ''The sum of 2.5 and 4.5 is: 7.0''],
      unread = []\<rparr>"
  by code_simp

text \<open>
  C1 as stated fails: the line \<open>The sum of 2.5 and 4.5 is: 9.0\<close> is not among the lines
  that the program writes on the input lines \<open>2.5\<close> and \<open>4.5\<close>.
\<close>

theorem no_line_with_sum_9:
  "Line ''The sum of 2.5 and 4.5 is: 9.0'' \<notin> set (written (run [''2.5'', ''4.5'']))"
  by code_simp

text \<open>
  C3. When the first input line is \<open>abc\<close>, whatever follows it, the program prints the
  demonstration line, the first prompt and one line that begins with \<open>Error:\<close>; it
  prints no sum of user values, leaves the rest of the input unread and ends normally,
  with status 0.
\<close>

theorem first_line_abc:
  "run (''abc'' # rest) =
     \<lparr>exit_status = 0,
      written = [Line ''The sum of 5 and 3 is: 8'', Prompt ''Enter the first number: '',
                 Line (''Error: could not convert string to float: '' @
                       [CHR 0x27] @ ''abc'' @ [CHR 0x27])],
      unread = rest\<rparr>"
  using run_bad_first [OF py_float_abc, of rest] by (simp add: str_repr_abc)

text \<open>
  C4 (as the program behaves). The exit status is 0 whenever the input holds every line
  that the program asks for: a first line that is not a number, or two lines. When the
  input ends before a line that the program asks for (no line at all, or a first line
  that is a number and no second line), \<open>input\<close> raises \<open>EOFError\<close>, which the handler
  for \<open>ValueError\<close> does not catch, and the exit status is 1.
\<close>

theorem exit_status_of_run:
  "exit_status (run lines) =
     (case lines of
        [] \<Rightarrow> 1
      | [l1] \<Rightarrow> (case py_float l1 of Inl err \<Rightarrow> 0 | Inr x \<Rightarrow> 1)
      | l1 # l2 # rest \<Rightarrow> 0)"
proof (cases lines)
  case Nil
  then show ?thesis by (simp add: run_eof_first)
next
  case (Cons l1 more)
  show ?thesis
  proof (cases "py_float l1")
    case (Inl err)
    with Cons show ?thesis by (simp add: run_bad_first split: list.splits)
  next
    case first: (Inr x)
    show ?thesis
    proof (cases more)
      case Nil
      with Cons first show ?thesis by (simp add: run_eof_second)
    next
      case tail: (Cons l2 rest)
      show ?thesis
      proof (cases "py_float l2")
        case (Inl err)
        with Cons first tail show ?thesis by (simp add: run_bad_second)
      next
        case (Inr y)
        with Cons first tail show ?thesis by (simp add: run_ok)
      qed
    qed
  qed
qed

text \<open>
  C4 as stated fails: on an empty input the program does not end with status 0.
\<close>

theorem exit_status_on_empty_input: "exit_status (run []) \<noteq> 0"
  by (simp add: run_eof_first)

text \<open>
  C5. Whatever the input, the first thing the program writes is the line
  \<open>The sum of 5 and 3 is: 8\<close>, the sum that \<open>add_two_numbers\<close> returns for 5 and 3, and
  the first prompt comes after it: the demonstration runs before any input is read.
\<close>

theorem demonstration_line_first:
  "add_two_numbers (PInt 5) (PInt 3) = Inr (PInt 8) \<and>
   (\<exists>more. written (run lines) =
      Line ''The sum of 5 and 3 is: 8'' # Prompt ''Enter the first number: '' # more)"
proof (cases lines)
  case Nil
  then show ?thesis by (simp add: run_eof_first demo_sum)
next
  case (Cons l1 more)
  show ?thesis
  proof (cases "py_float l1")
    case (Inl err)
    with Cons show ?thesis by (simp add: run_bad_first demo_sum)
  next
    case first: (Inr x)
    show ?thesis
    proof (cases more)
      case Nil
      with Cons first show ?thesis by (simp add: run_eof_second demo_sum)
    next
      case tail: (Cons l2 rest)
      show ?thesis
      proof (cases "py_float l2")
        case (Inl err)
        with Cons first tail show ?thesis by (simp add: run_bad_second demo_sum)
      next
        case (Inr y)
        with Cons first tail show ?thesis by (simp add: run_ok demo_sum)
      qed
    qed
  qed
qed

text \<open>
  C7. On the input lines \<open>-3\<close> and \<open>0\<close> the program parses \<open>-3.0\<close> and \<open>0.0\<close>,
  \<open>add_two_numbers\<close> returns the float \<open>-3.0\<close>, which Python's \<open>==\<close> finds equal to the
  integer \<open>-3\<close>, and the line printed is \<open>The sum of -3.0 and 0.0 is: -3.0\<close>.
\<close>

theorem sum_of_minus_3_and_0:
  "py_float ''-3'' = Inr (Finite True (3 * 2 ^ 51) (- 51)) \<and>
   py_float ''0'' = Inr (Finite False 0 (- 1074)) \<and>
   add_two_numbers (PFloat (Finite True (3 * 2 ^ 51) (- 51))) (PFloat (Finite False 0 (- 1074)))
     = Inr (PFloat (Finite True (3 * 2 ^ 51) (- 51))) \<and>
   py_eq (PFloat (Finite True (3 * 2 ^ 51) (- 51))) (PInt (- 3)) \<and>
   run [''-3'', ''0''] =
     \<lparr>exit_status = 0,
      written = [Line ''The sum of 5 and 3 is: 8'', Prompt ''Enter the first number: '',
                 Prompt ''Enter the second number: '',
                 Line ''The sum of -3.0 and 0.0 is: -3.0''],
      unread = []\<rparr>"
proof -
  let ?a = "Finite True (3 * 2 ^ 51) (- 51)" and ?z = "Finite False 0 (- 1074)"
  have p1: "py_float ''-3'' = Inr ?a" by code_simp
  have p2: "py_float ''0'' = Inr ?z" by code_simp
  have dbl: "is_double ?a" by simp
  have add: "float_add ?a ?z = ?a" by (rule float_add_zero [OF dbl]) simp
  have sum: "add_two_numbers (PFloat ?a) (PFloat ?z) = Inr (PFloat ?a)"
    by (simp only: add_two_numbers_def py_add.simps add)
  have eq: "py_eq (PFloat ?a) (PInt (- 3))" by simp
  have r1: "float_repr ?a = ''-3.0''" by code_simp
  have r2: "float_repr ?z = ''0.0''" by code_simp
  have line: "sum_line (PFloat ?a) (PFloat ?z) (PFloat ?a) = ''The sum of -3.0 and 0.0 is: -3.0''"
    unfolding sum_line_def py_str.simps r1 r2 by simp
  have "run [''-3'', ''0''] =
     \<lparr>exit_status = 0,
      written = [Line ''The sum of 5 and 3 is: 8'', Prompt ''Enter the first number: '',
                 Prompt ''Enter the second number: '',
                 Line ''The sum of -3.0 and 0.0 is: -3.0''],
      unread = []\<rparr>"
    using run_ok [OF p1 p2, of "[]"] by (simp only: add line)
  with p1 p2 sum eq show ?thesis by (intro conjI)
qed

text \<open>
  C8. \<open>run\<close> is a total function with no recursion, so the program ends on every input.
  The prompts it writes are the first prompt alone or the first prompt followed by the
  second, never more and never one of them twice, and it reads at most two lines.
\<close>

theorem at_most_two_prompts:
  "(prompts (written (run lines)) = [''Enter the first number: ''] \<or>
    prompts (written (run lines)) = [''Enter the first number: '', ''Enter the second number: ''])
   \<and> length lines \<le> length (unread (run lines)) + 2"
proof (cases lines)
  case Nil
  then show ?thesis by (simp add: run_eof_first)
next
  case (Cons l1 more)
  show ?thesis
  proof (cases "py_float l1")
    case (Inl err)
    with Cons show ?thesis by (simp add: run_bad_first)
  next
    case first: (Inr x)
    show ?thesis
    proof (cases more)
      case Nil
      with Cons first show ?thesis by (simp add: run_eof_second)
    next
      case tail: (Cons l2 rest)
      show ?thesis
      proof (cases "py_float l2")
        case (Inl err)
        with Cons first tail show ?thesis by (simp add: run_bad_second)
      next
        case (Inr y)
        with Cons first tail show ?thesis by (simp add: run_ok)
      qed
    qed
  qed
qed

text \<open>
  C9. When \<open>float\<close> rejects the first line, the program writes one prompt only: the
  second prompt is not written, the lines after the first stay unread, and the program
  ends with the error line.
\<close>

theorem no_second_prompt_after_bad_first_line:
  assumes "py_float l1 = Inl err"
  shows "prompts (written (run (l1 # rest))) = [''Enter the first number: ''] \<and>
         Prompt ''Enter the second number: '' \<notin> set (written (run (l1 # rest))) \<and>
         unread (run (l1 # rest)) = rest \<and>
         last (written (run (l1 # rest))) =
           Line (''Error: could not convert string to float: '' @ str_repr l1)"
  by (simp add: run_bad_first [OF assms])

theorem no_second_prompt_after_bad_first_line_witness:
  "py_float ''abc'' =
     Inl (ValueError (''could not convert string to float: '' @ [CHR 0x27] @ ''abc'' @ [CHR 0x27])) \<and>
   prompts (written (run [''abc'', ''4.5''])) = [''Enter the first number: ''] \<and>
   Prompt ''Enter the second number: '' \<notin> set (written (run [''abc'', ''4.5''])) \<and>
   unread (run [''abc'', ''4.5'']) = [''4.5'']"
  using no_second_prompt_after_bad_first_line [OF py_float_abc, of "[''4.5'']"] py_float_abc
  by simp

text \<open>
  C2 (as the program behaves). \<open>add_two_numbers\<close> is a function of its two arguments
  alone: it neither reads nor writes the console. On two ints it returns their exact
  sum. On two floats it never fails and returns their binary64 sum: a binary64 value
  again, which, when the operands and the result are finite, is within half a unit in
  the last place of the exact sum. On an int and a float it converts the int first: it
  returns the float sum when the int is below \<open>2^1024 - 2^970\<close> in absolute value, and
  raises \<open>OverflowError\<close> otherwise.
\<close>

theorem add_two_numbers_cases:
  "add_two_numbers (PInt a) (PInt b) = Inr (PInt (a + b)) \<and>
   add_two_numbers (PFloat x) (PFloat y) = Inr (PFloat (float_add x y)) \<and>
   (is_double x \<and> is_double y \<longrightarrow> is_double (float_add x y)) \<and>
   (float_add (Finite sa ma ea) (Finite sb mb eb) = Finite s m e \<longrightarrow>
      \<bar>(if s then - 1 else 1) * real_of_int m * 2 powi e -
       ((if sa then - 1 else 1) * real_of_int ma * 2 powi ea +
        (if sb then - 1 else 1) * real_of_int mb * 2 powi eb)\<bar> \<le> 2 powi e / 2) \<and>
   add_two_numbers (PInt a) (PFloat y) =
     (if 2 ^ 1024 - 2 ^ 970 \<le> \<bar>a\<bar> then Inl (OverflowError ''int too large to convert to float'')
      else Inr (PFloat (float_add (round_to_double (a < 0) \<bar>a\<bar> 1) y))) \<and>
   add_two_numbers (PFloat x) (PInt b) =
     (if 2 ^ 1024 - 2 ^ 970 \<le> \<bar>b\<bar> then Inl (OverflowError ''int too large to convert to float'')
      else Inr (PFloat (float_add x (round_to_double (b < 0) \<bar>b\<bar> 1))))"
proof (intro conjI impI)
  show "add_two_numbers (PInt a) (PInt b) = Inr (PInt (a + b))"
    by (simp add: add_two_numbers_def)
  show "add_two_numbers (PFloat x) (PFloat y) = Inr (PFloat (float_add x y))"
    by (simp add: add_two_numbers_def)
  show "is_double (float_add x y)" if "is_double x \<and> is_double y"
    using that by (simp add: float_add_is_double)
  show "\<bar>(if s then - 1 else 1) * real_of_int m * 2 powi e -
       ((if sa then - 1 else 1) * real_of_int ma * 2 powi ea +
        (if sb then - 1 else 1) * real_of_int mb * 2 powi eb)\<bar> \<le> 2 powi e / 2"
    if "float_add (Finite sa ma ea) (Finite sb mb eb) = Finite s m e"
    using that by (rule float_add_error)
  show "add_two_numbers (PInt a) (PFloat y) =
     (if 2 ^ 1024 - 2 ^ 970 \<le> \<bar>a\<bar> then Inl (OverflowError ''int too large to convert to float'')
      else Inr (PFloat (float_add (round_to_double (a < 0) \<bar>a\<bar> 1) y)))"
    unfolding add_two_numbers_def py_add.simps int_to_float_cases by simp
  show "add_two_numbers (PFloat x) (PInt b) =
     (if 2 ^ 1024 - 2 ^ 970 \<le> \<bar>b\<bar> then Inl (OverflowError ''int too large to convert to float'')
      else Inr (PFloat (float_add x (round_to_double (b < 0) \<bar>b\<bar> 1))))"
    unfolding add_two_numbers_def py_add.simps int_to_float_cases by simp
qed

theorem add_two_numbers_cases_witness:
  "is_double (Finite False (5 * 2 ^ 50) (- 51)) \<and>
   is_double (Finite False (9 * 2 ^ 49) (- 50)) \<and>
   float_add (Finite False (5 * 2 ^ 50) (- 51)) (Finite False (9 * 2 ^ 49) (- 50)) =
     Finite False (7 * 2 ^ 50) (- 50) \<and>
   is_double (float_add (Finite False (5 * 2 ^ 50) (- 51)) (Finite False (9 * 2 ^ 49) (- 50))) \<and>
   \<bar>(if False then - 1 else 1) * real_of_int (7 * 2 ^ 50) * 2 powi (- 50) -
    ((if False then - 1 else 1) * real_of_int (5 * 2 ^ 50) * 2 powi (- 51) +
     (if False then - 1 else 1) * real_of_int (9 * 2 ^ 49) * 2 powi (- 50))\<bar> \<le> 2 powi (- 50) / 2"
proof -
  have dx: "is_double (Finite False (5 * 2 ^ 50) (- 51))"
    and dy: "is_double (Finite False (9 * 2 ^ 49) (- 50))"
    by simp_all
  have sum: "float_add (Finite False (5 * 2 ^ 50) (- 51)) (Finite False (9 * 2 ^ 49) (- 50)) =
     Finite False (7 * 2 ^ 50) (- 50)"
    by code_simp
  from add_two_numbers_cases [of 1 2 "Finite False (5 * 2 ^ 50) (- 51)"
      "Finite False (9 * 2 ^ 49) (- 50)" False "5 * 2 ^ 50" "- 51" False "9 * 2 ^ 49" "- 50"
      False "7 * 2 ^ 50" "- 50"] dx dy sum
  show ?thesis by blast
qed

text \<open>
  C2 as stated fails: \<open>add_two_numbers(2**1024, 1.0)\<close> does not return a sum, it raises
  \<open>OverflowError\<close>.
\<close>

theorem add_two_numbers_overflow:
  "add_two_numbers (PInt (2 ^ 1024)) (PFloat (Finite False (2 ^ 52) (- 52))) =
     Inl (OverflowError ''int too large to convert to float'')"
  unfolding add_two_numbers_def py_add.simps int_to_float_cases by simp

text \<open>
  C6 (as the program behaves). \<open>add_two_numbers(a, b)\<close> and \<open>add_two_numbers(b, a)\<close> give
  the same result, or raise the same error, for all ints and floats. On ints the
  addition is associative and 0 is its identity. On floats \<open>add_two_numbers(x, 0)\<close> is a
  float equal (\<open>==\<close>) to \<open>x\<close> for every binary64 value \<open>x\<close> other than NaN. Associativity
  is not claimed for floats.
\<close>

theorem addition_laws:
  "add_two_numbers a b = add_two_numbers b a \<and>
   (case add_two_numbers (PInt i) (PInt j) of
      Inl err \<Rightarrow> Inl err | Inr ij \<Rightarrow> add_two_numbers ij (PInt k)) =
   (case add_two_numbers (PInt j) (PInt k) of
      Inl err \<Rightarrow> Inl err | Inr jk \<Rightarrow> add_two_numbers (PInt i) jk) \<and>
   add_two_numbers (PInt i) (PInt 0) = Inr (PInt i) \<and>
   (is_double x \<and> \<not> is_nan x \<longrightarrow>
     (\<exists>r. add_two_numbers (PFloat x) (PInt 0) = Inr (PFloat r) \<and> py_eq (PFloat r) (PFloat x)))"
proof (intro conjI impI)
  show "add_two_numbers a b = add_two_numbers b a"
    unfolding add_two_numbers_def by (rule py_add_commute)
  show "(case add_two_numbers (PInt i) (PInt j) of
           Inl err \<Rightarrow> Inl err | Inr ij \<Rightarrow> add_two_numbers ij (PInt k)) =
        (case add_two_numbers (PInt j) (PInt k) of
           Inl err \<Rightarrow> Inl err | Inr jk \<Rightarrow> add_two_numbers (PInt i) jk)"
    by (simp add: add_two_numbers_def add.assoc)
  show "add_two_numbers (PInt i) (PInt 0) = Inr (PInt i)"
    by (simp add: add_two_numbers_def)
  assume "is_double x \<and> \<not> is_nan x"
  then have "float_eq (float_add x (Finite False 0 (- 1074))) x"
    by (simp add: float_add_zero_eq)
  then show "\<exists>r. add_two_numbers (PFloat x) (PInt 0) = Inr (PFloat r) \<and> py_eq (PFloat r) (PFloat x)"
    by (simp add: add_two_numbers_def int_to_float_zero)
qed

theorem addition_laws_witness:
  "is_double (Finite False (5 * 2 ^ 50) (- 51)) \<and> \<not> is_nan (Finite False (5 * 2 ^ 50) (- 51)) \<and>
   add_two_numbers (PInt 2) (PFloat (Finite False (5 * 2 ^ 50) (- 51))) =
     add_two_numbers (PFloat (Finite False (5 * 2 ^ 50) (- 51))) (PInt 2) \<and>
   (\<exists>r. add_two_numbers (PFloat (Finite False (5 * 2 ^ 50) (- 51))) (PInt 0) = Inr (PFloat r) \<and>
        py_eq (PFloat r) (PFloat (Finite False (5 * 2 ^ 50) (- 51))))"
  using addition_laws [of "PInt 2" "PFloat (Finite False (5 * 2 ^ 50) (- 51))" 1 2 3
      "Finite False (5 * 2 ^ 50) (- 51)"]
  by simp

text \<open>
  C6 as stated fails on floats: with \<open>a = 9007199254740992.0\<close> (\<open>2^53\<close>) and
  \<open>b = c = 1.0\<close>, \<open>a + b\<close> is \<open>a\<close> again, so \<open>(a + b) + c\<close> is \<open>a\<close>, while \<open>b + c\<close> is \<open>2.0\<close> and
  \<open>a + (b + c)\<close> is \<open>9007199254740994.0\<close>; the two are not equal.
\<close>

theorem float_addition_not_associative:
  "add_two_numbers (PFloat (Finite False (2 ^ 52) 1)) (PFloat (Finite False (2 ^ 52) (- 52)))
     = Inr (PFloat (Finite False (2 ^ 52) 1)) \<and>
   add_two_numbers (PFloat (Finite False (2 ^ 52) (- 52))) (PFloat (Finite False (2 ^ 52) (- 52)))
     = Inr (PFloat (Finite False (2 ^ 52) (- 51))) \<and>
   add_two_numbers (PFloat (Finite False (2 ^ 52) 1)) (PFloat (Finite False (2 ^ 52) (- 51)))
     = Inr (PFloat (Finite False (2 ^ 52 + 1) 1)) \<and>
   \<not> py_eq (PFloat (Finite False (2 ^ 52) 1)) (PFloat (Finite False (2 ^ 52 + 1) 1))"
  by code_simp

text \<open>
  C10. When both lines parse, the line printed shows the two parsed floats and their
  float sum, each as \<open>repr\<close> writes a float; such a text always has a \<open>.\<close>, an \<open>e\<close> or
  an \<open>n\<close> (of \<open>inf\<close> and \<open>nan\<close>) and so is never the text of an int. On the lines \<open>2\<close> and
  \<open>3\<close> the line is \<open>The sum of 2.0 and 3.0 is: 5.0\<close>, and the line
  \<open>The sum of 2 and 3 is: 5\<close> is not printed.
\<close>

theorem user_sum_line_shows_floats:
  "(\<forall>l1 l2 x y rest. py_float l1 = Inr x \<and> py_float l2 = Inr y \<longrightarrow>
      written (run (l1 # l2 # rest)) =
        [Line ''The sum of 5 and 3 is: 8'', Prompt ''Enter the first number: '',
         Prompt ''Enter the second number: '',
         Line (''The sum of '' @ float_repr x @ '' and '' @ float_repr y @ '' is: '' @
               float_repr (float_add x y))] \<and>
      is_double x \<and> is_double y \<and> is_double (float_add x y)) \<and>
   (\<forall>z i. float_repr z \<noteq> int_str i) \<and>
   written (run [''2'', ''3'']) =
     [Line ''The sum of 5 and 3 is: 8'', Prompt ''Enter the first number: '',
      Prompt ''Enter the second number: '', Line ''The sum of 2.0 and 3.0 is: 5.0''] \<and>
   Line ''The sum of 2 and 3 is: 5'' \<notin> set (written (run [''2'', ''3'']))"
proof (intro conjI allI impI)
  fix l1 l2 x y rest
  assume "py_float l1 = Inr x \<and> py_float l2 = Inr y"
  then have p: "py_float l1 = Inr x" "py_float l2 = Inr y" by simp_all
  from p show "written (run (l1 # l2 # rest)) =
        [Line ''The sum of 5 and 3 is: 8'', Prompt ''Enter the first number: '',
         Prompt ''Enter the second number: '',
         Line (''The sum of '' @ float_repr x @ '' and '' @ float_repr y @ '' is: '' @
               float_repr (float_add x y))]"
    by (simp add: run_ok sum_line_def)
  from p show "is_double x" "is_double y" by (simp_all add: py_float_is_double)
  then show "is_double (float_add x y)" by (rule float_add_is_double)
next
  fix z i
  show "float_repr z \<noteq> int_str i" by (rule float_repr_not_int_str)
next
  show "written (run [''2'', ''3'']) =
     [Line ''The sum of 5 and 3 is: 8'', Prompt ''Enter the first number: '',
      Prompt ''Enter the second number: '', Line ''The sum of 2.0 and 3.0 is: 5.0'']"
    by code_simp
next
  show "Line ''The sum of 2 and 3 is: 5'' \<notin> set (written (run [''2'', ''3'']))"
    by code_simp
qed

theorem user_sum_line_shows_floats_witness:
  "py_float ''2.5'' = Inr (Finite False (5 * 2 ^ 50) (- 51)) \<and>
   py_float ''4.5'' = Inr (Finite False (9 * 2 ^ 49) (- 50)) \<and>
   written (run [''2.5'', ''4.5'', ''rest'']) =
     [Line ''The sum of 5 and 3 is: 8'', Prompt ''Enter the first number: '',
      Prompt ''Enter the second number: '',
      Line (''The sum of '' @ float_repr (Finite False (5 * 2 ^ 50) (- 51)) @ '' and '' @
            float_repr (Finite False (9 * 2 ^ 49) (- 50)) @ '' is: '' @
            float_repr (float_add (Finite False (5 * 2 ^ 50) (- 51))
                                  (Finite False (9 * 2 ^ 49) (- 50))))]"
proof -
  have p1: "py_float ''2.5'' = Inr (Finite False (5 * 2 ^ 50) (- 51))" by code_simp
  have p2: "py_float ''4.5'' = Inr (Finite False (9 * 2 ^ 49) (- 50))" by code_simp
  from user_sum_line_shows_floats p1 p2 show ?thesis by blast
qed

end
